theory Spec2Isabelle
  imports Complex_Main "HOL-Library.Sublist"
begin

section \<open>Data model (core/types.ts)\<close>

text \<open>
  A row id is a string or a number. Numbers are modelled as integers; ids are only ever
  compared for equality (the key comparison of a JavaScript \<open>Map\<close>).
\<close>

datatype RowId = StrId string | NumId int

type_synonym ColumnId = string

text \<open>
  Cell values have the TypeScript type \<open>unknown\<close>. The model separates the two nullish
  values, which the code tests for, from every other value, kept abstract in \<open>'v\<close>.
\<close>

datatype 'v jsval = Undefined | Null | Val 'v

text \<open>
  A row is an object: a finite map from property names to values. Reading a property
  that the object does not have yields \<open>undefined\<close>.
\<close>

type_synonym 'v Row = "string \<Rightarrow> 'v jsval option"

definition getProp :: "'v Row \<Rightarrow> string \<Rightarrow> 'v jsval" where
  "getProp row k = (case row k of None \<Rightarrow> Undefined | Some v \<Rightarrow> v)"

datatype Direction = Asc | Desc

record SortDescriptor =
  columnId :: ColumnId
  direction :: Direction

record 'v EditingState =
  rowId :: RowId
  colId :: ColumnId
  edit_value :: "'v jsval"
  originalValue :: "'v jsval"
  isSaving :: bool
  error :: "string option"

record PinnedColumns =
  left :: "ColumnId list"
  right :: "ColumnId list"

text \<open>
  The grid state. The static column definitions (field \<open>columns\<close>, which carry render
  hooks) are read by no transition below and are left out. The field \<open>sort\<close> of the
  source is \<open>sort_list\<close> here.
\<close>

record 'v GridState =
  rowMap :: "RowId \<Rightarrow> 'v Row option"
  rowOrder :: "RowId list"
  columnWidths :: "ColumnId \<Rightarrow> real option"
  columnOrder :: "ColumnId list"
  pinnedColumns :: PinnedColumns
  columnVisibility :: "ColumnId \<Rightarrow> bool option"
  selectedRows :: "RowId set"
  focusedCell :: "(RowId \<times> ColumnId) option"
  editingCell :: "'v EditingState option"
  sort_list :: "SortDescriptor list"
  scrollTop :: real
  scrollLeft :: real

section \<open>The store (core/store.ts)\<close>

text \<open>
  Every action of \<open>GridStore\<close> calls \<open>setState\<close> with an updater; \<open>setState\<close> merges
  the updater's result over the previous snapshot, stores it and notifies. Each action
  is modelled by the snapshot it stores, as a function of the previous snapshot; the
  notification pass is modelled separately below.
\<close>

text \<open>The snapshot of \<open>new GridStore()\<close>, constructed without an initial state.\<close>

definition GridStore_init :: "'v GridState" where
  "GridStore_init =
     \<lparr> rowMap = Map.empty, rowOrder = [], columnWidths = Map.empty, columnOrder = [],
       pinnedColumns = \<lparr> left = [], right = [] \<rparr>, columnVisibility = Map.empty,
       selectedRows = {}, focusedCell = None, editingCell = None, sort_list = [],
       scrollTop = 0, scrollLeft = 0 \<rparr>"

subsection \<open>Editing actions\<close>

definition startEdit :: "RowId \<Rightarrow> ColumnId \<Rightarrow> 'v jsval \<Rightarrow> 'v GridState \<Rightarrow> 'v GridState" where
  "startEdit rid cid v prev =
     prev\<lparr> editingCell := Some \<lparr> rowId = rid, colId = cid, edit_value = v,
                                 originalValue = v, isSaving = False, error = None \<rparr> \<rparr>"

definition updateEditValue :: "'v jsval \<Rightarrow> 'v GridState \<Rightarrow> 'v GridState" where
  "updateEditValue v prev =
     (case editingCell prev of
        None \<Rightarrow> prev
      | Some e \<Rightarrow> prev\<lparr> editingCell := Some (e\<lparr> edit_value := v, error := None \<rparr>) \<rparr>)"

definition cancelEdit :: "'v GridState \<Rightarrow> 'v GridState" where
  "cancelEdit prev = prev\<lparr> editingCell := None \<rparr>"

definition setEditSaving :: "bool \<Rightarrow> 'v GridState \<Rightarrow> 'v GridState" where
  "setEditSaving b prev =
     (case editingCell prev of
        None \<Rightarrow> prev
      | Some e \<Rightarrow> prev\<lparr> editingCell := Some (e\<lparr> isSaving := b \<rparr>) \<rparr>)"

definition setEditError :: "string option \<Rightarrow> 'v GridState \<Rightarrow> 'v GridState" where
  "setEditError err prev =
     (case editingCell prev of
        None \<Rightarrow> prev
      | Some e \<Rightarrow> prev\<lparr> editingCell := Some (e\<lparr> error := err, isSaving := False \<rparr>) \<rparr>)"

subsection \<open>Data actions\<close>

text \<open>
  \<open>updateRow\<close>: the object spread \<open>{ ...row, ...updates }\<close> is map override, the
  properties of \<open>updates\<close> winning.
\<close>

definition updateRow :: "RowId \<Rightarrow> 'v Row \<Rightarrow> 'v GridState \<Rightarrow> 'v GridState" where
  "updateRow rid updates prev =
     (case rowMap prev rid of
        None \<Rightarrow> prev
      | Some row \<Rightarrow> prev\<lparr> rowMap := (rowMap prev)(rid \<mapsto> row ++ updates) \<rparr>)"

definition commitEdit :: "'v GridState \<Rightarrow> 'v GridState" where
  "commitEdit prev =
     (case editingCell prev of
        None \<Rightarrow> prev
      | Some e \<Rightarrow>
          (case rowMap prev (rowId e) of
             None \<Rightarrow> prev\<lparr> editingCell := None \<rparr>
           | Some row \<Rightarrow>
               prev\<lparr> rowMap := (rowMap prev)(rowId e \<mapsto> row(colId e \<mapsto> edit_value e)),
                     editingCell := None \<rparr>))"

subsection \<open>Column visibility\<close>

text \<open>
  \<open>toggleColumnVisibility\<close> stores \<open>!prev.columnVisibility[columnId]\<close>. The negation of
  a missing entry (\<open>undefined\<close>) is \<open>true\<close>.
\<close>

definition toggleColumnVisibility :: "ColumnId \<Rightarrow> 'v GridState \<Rightarrow> 'v GridState" where
  "toggleColumnVisibility cid prev =
     prev\<lparr> columnVisibility :=
       (columnVisibility prev)(cid \<mapsto>
          (case columnVisibility prev cid of None \<Rightarrow> True | Some b \<Rightarrow> \<not> b)) \<rparr>"

text \<open>
  The visibility test of the layout engine (core/virtual.ts, lines 112 to 117):
  \<open>columnVisibility[id] !== false\<close>, so that a column without an entry is visible.
\<close>

definition isVisible :: "(ColumnId \<Rightarrow> bool option) \<Rightarrow> ColumnId \<Rightarrow> bool" where
  "isVisible vis cid = (vis cid \<noteq> Some False)"

subsection \<open>Sorting\<close>

text \<open>
  The comparator of \<open>sortRows\<close>. The operator \<open><\<close> of JavaScript on two values that are
  neither \<open>null\<close> nor \<open>undefined\<close> is the parameter \<open>lt\<close>; \<open>a > b\<close> is \<open>b < a\<close>. The
  comparator only applies \<open><\<close> after both nullish tests have failed, so \<open>js_lt\<close> is
  never asked about a nullish operand. Strict equality \<open>===\<close> is equality of values.
\<close>

definition isNullish :: "'v jsval \<Rightarrow> bool" where
  "isNullish v = (v = Undefined \<or> v = Null)"

fun js_lt :: "('v \<Rightarrow> 'v \<Rightarrow> bool) \<Rightarrow> 'v jsval \<Rightarrow> 'v jsval \<Rightarrow> bool" where
  "js_lt lt (Val a) (Val b) = lt a b"
| "js_lt lt _ _ = False"

fun compareRows ::
  "('v \<Rightarrow> 'v \<Rightarrow> bool) \<Rightarrow> SortDescriptor list \<Rightarrow> 'v Row \<Rightarrow> 'v Row \<Rightarrow> int" where
  "compareRows lt [] rowA rowB = 0"
| "compareRows lt (s # ss) rowA rowB =
     (let valA = getProp rowA (columnId s);
          valB = getProp rowB (columnId s)
      in if valA = valB then compareRows lt ss rowA rowB
         else
           (let dir = (if direction s = Asc then 1 else - 1)
            in if isNullish valA then 1 * dir
               else if isNullish valB then - 1 * dir
               else if js_lt lt valA valB then - 1 * dir
               else if js_lt lt valB valA then 1 * dir
               else compareRows lt ss rowA rowB))"

definition comparator ::
  "('v \<Rightarrow> 'v \<Rightarrow> bool) \<Rightarrow> 'v GridState \<Rightarrow> RowId \<Rightarrow> RowId \<Rightarrow> int" where
  "comparator lt st aId bId =
     (case rowMap st aId of
        None \<Rightarrow> 0
      | Some rowA \<Rightarrow>
          (case rowMap st bId of
             None \<Rightarrow> 0
           | Some rowB \<Rightarrow> compareRows lt (sort_list st) rowA rowB))"

text \<open>
  \<open>Array.prototype.sort\<close> is stable, and its result is fixed by the language whenever
  the comparator is consistent. It is modelled by insertion sort, which keeps the
  earlier of two elements first unless the comparator puts it strictly after.
\<close>

fun insert_by :: "('a \<Rightarrow> 'a \<Rightarrow> int) \<Rightarrow> 'a \<Rightarrow> 'a list \<Rightarrow> 'a list" where
  "insert_by cmp x [] = [x]"
| "insert_by cmp x (y # ys) =
     (if cmp x y \<le> 0 then x # y # ys else y # insert_by cmp x ys)"

fun array_sort :: "('a \<Rightarrow> 'a \<Rightarrow> int) \<Rightarrow> 'a list \<Rightarrow> 'a list" where
  "array_sort cmp [] = []"
| "array_sort cmp (x # xs) = insert_by cmp x (array_sort cmp xs)"

definition sortRows :: "('v \<Rightarrow> 'v \<Rightarrow> bool) \<Rightarrow> 'v GridState \<Rightarrow> RowId list" where
  "sortRows lt st =
     (if length (sort_list st) = 0 then rowOrder st
      else array_sort (comparator lt st) (rowOrder st))"

definition toggleSort ::
  "('v \<Rightarrow> 'v \<Rightarrow> bool) \<Rightarrow> ColumnId \<Rightarrow> bool \<Rightarrow> 'v GridState \<Rightarrow> 'v GridState" where
  "toggleSort lt cid multi prev =
     (let existingSort = find (\<lambda>s. columnId s = cid) (sort_list prev);
          newSort =
            (if \<not> multi then
               (case existingSort of
                  Some es \<Rightarrow>
                    if direction es = Asc then [\<lparr> columnId = cid, direction = Desc \<rparr>]
                    else []
                | None \<Rightarrow> [\<lparr> columnId = cid, direction = Asc \<rparr>])
             else
               (case existingSort of
                  Some es \<Rightarrow>
                    if direction es = Asc
                    then map (\<lambda>s. if columnId s = cid then s\<lparr> direction := Desc \<rparr> else s)
                           (sort_list prev)
                    else filter (\<lambda>s. columnId s \<noteq> cid) (sort_list prev)
                | None \<Rightarrow> sort_list prev @ [\<lparr> columnId = cid, direction = Asc \<rparr>]));
          sortedRowOrder = sortRows lt (prev\<lparr> sort_list := newSort \<rparr>)
      in prev\<lparr> sort_list := newSort, rowOrder := sortedRowOrder \<rparr>)"

subsection \<open>Replacing the data\<close>

text \<open>
  The \<open>forEach\<close> of \<open>setData\<close>: each row is stored under its id, a later row replacing an
  earlier one with the same id, and its id is pushed onto \<open>rowOrder\<close>.
\<close>

fun setData_loop ::
  "('v Row \<Rightarrow> RowId) \<Rightarrow> 'v Row list \<Rightarrow> (RowId \<Rightarrow> 'v Row option) \<times> RowId list
     \<Rightarrow> (RowId \<Rightarrow> 'v Row option) \<times> RowId list" where
  "setData_loop getRowId [] acc = acc"
| "setData_loop getRowId (row # rows) (m, order) =
     setData_loop getRowId rows (m(getRowId row \<mapsto> row), order @ [getRowId row])"

definition setData ::
  "('v \<Rightarrow> 'v \<Rightarrow> bool) \<Rightarrow> 'v Row list \<Rightarrow> ('v Row \<Rightarrow> RowId) \<Rightarrow> 'v GridState \<Rightarrow> 'v GridState" where
  "setData lt rows getRowId prev =
     (let built = setData_loop getRowId rows (Map.empty, []);
          nextState = prev\<lparr> rowMap := fst built, rowOrder := snd built \<rparr>
      in if length (sort_list prev) > 0
         then nextState\<lparr> rowOrder := sortRows lt nextState \<rparr>
         else nextState)"

subsection \<open>The cell editor's commit (components/DataGrid/GridCell.tsx)\<close>

text \<open>
  \<open>commit\<close> of \<open>CellEditor\<close>. The configured \<open>onCellEdit\<close> handler is external; the model
  takes its outcome as an argument: \<open>None\<close> when no handler is configured, otherwise
  whether the awaited call resolved or threw, and then what was thrown. The catch block
  reads \<open>e.message\<close> of the thrown value \<open>e\<close>: on \<open>null\<close> or \<open>undefined\<close> (as after
  \<open>Promise.reject()\<close>) this read throws a \<open>TypeError\<close>; on any other value it yields
  the message, or \<open>undefined\<close> when there is none (\<open>None\<close> below).
\<close>

datatype thrown = ThrownNullish | ThrownValue "string option"

datatype outcome = Resolved | Rejected thrown

text \<open>\<open>e.message || 'Validation failed'\<close>: an absent or empty message gives the default.\<close>

definition failureMessage :: "string option \<Rightarrow> string" where
  "failureMessage m =
     (case m of None \<Rightarrow> ''Validation failed''
      | Some msg \<Rightarrow> if msg = [] then ''Validation failed'' else msg)"

text \<open>
  How \<open>commit\<close> ends: it returns, or an exception leaves its catch block. The result of
  the model is the snapshot the store holds when \<open>commit\<close> ends, with how it ended. In
  the catch block \<open>updateRow\<close> and \<open>startEdit\<close> run before \<open>e.message\<close> is read, so they
  have run when that read throws, and \<open>setEditError\<close> has not. The store is taken not to
  change between the capture of the old value and the handler's failure.
\<close>

datatype completion = Returned | ThrewTypeError

definition commit :: "outcome option \<Rightarrow> 'v GridState \<Rightarrow> 'v GridState \<times> completion" where
  "commit onCellEdit st =
     (case editingCell st of
        None \<Rightarrow> (st, Returned)
      | Some ec \<Rightarrow>
          (case onCellEdit of
             None \<Rightarrow> (commitEdit st, Returned)
           | Some result \<Rightarrow>
               (let oldValue = (case rowMap st (rowId ec) of
                                  Some row \<Rightarrow> getProp row (colId ec)
                                | None \<Rightarrow> Undefined);
                    st1 = commitEdit st
                in case result of
                     Resolved \<Rightarrow> (st1, Returned)
                   | Rejected e \<Rightarrow>
                       (let st2 = updateRow (rowId ec) [colId ec \<mapsto> oldValue] st1;
                            st3 = startEdit (rowId ec) (colId ec) (edit_value ec) st2
                        in case e of
                             ThrownNullish \<Rightarrow> (st3, ThrewTypeError)
                           | ThrownValue m \<Rightarrow>
                               (setEditError (Some (failureMessage m)) st3, Returned)))))"

subsection \<open>Subscription and notification\<close>

text \<open>
  The listeners are kept in a JavaScript \<open>Set\<close>. Its data is a list of entries in
  insertion order; \<open>add\<close> appends a value that is not present, \<open>delete\<close> empties the
  entry of a value and leaves the other entries where they are. Listeners are named by
  numbers.
\<close>

type_synonym SetData = "nat option list"

definition Set_add :: "nat \<Rightarrow> SetData \<Rightarrow> SetData" where
  "Set_add l es = (if Some l \<in> set es then es else es @ [Some l])"

definition Set_delete :: "nat \<Rightarrow> SetData \<Rightarrow> SetData" where
  "Set_delete l es = map (\<lambda>e. if e = Some l then None else e) es"

definition subscribe :: "nat \<Rightarrow> SetData \<Rightarrow> SetData" where
  "subscribe l es = Set_add l es"

definition unsubscribe :: "nat \<Rightarrow> SetData \<Rightarrow> SetData" where
  "unsubscribe l es = Set_delete l es"

text \<open>
  What a listener does to the registry when it is called: a sequence of subscriptions
  and unsubscriptions. (A listener that starts another transition from inside the pass
  is not modelled.)
\<close>

datatype ListenerAction = Subscribe nat | Unsubscribe nat

fun runAction :: "ListenerAction \<Rightarrow> SetData \<Rightarrow> SetData" where
  "runAction (Subscribe l) es = subscribe l es"
| "runAction (Unsubscribe l) es = unsubscribe l es"

fun runActions :: "ListenerAction list \<Rightarrow> SetData \<Rightarrow> SetData" where
  "runActions [] es = es"
| "runActions (a # as) es = runActions as (runAction a es)"

text \<open>
  \<open>Set.prototype.forEach\<close> walks the entries by position and reads the list again after
  every callback: an entry appended by a callback is reached later in the same walk, and
  an entry emptied before the walk reaches it is skipped. A listener that unsubscribes
  and subscribes itself again is appended anew each time, so the walk need not end: the
  model counts steps down from \<open>fuel\<close> and returns \<open>None\<close> when they run out. The
  result is the registry after the pass and the listeners called, in call order.
\<close>

fun forEach ::
  "nat \<Rightarrow> (nat \<Rightarrow> ListenerAction list) \<Rightarrow> SetData \<Rightarrow> nat \<Rightarrow> nat list
     \<Rightarrow> (SetData \<times> nat list) option" where
  "forEach 0 beh es i called = None"
| "forEach (Suc fuel) beh es i called =
     (if i < length es then
        (case es ! i of
           None \<Rightarrow> forEach fuel beh es (i + 1) called
         | Some l \<Rightarrow> forEach fuel beh (runActions (beh l) es) (i + 1) (called @ [l]))
      else Some (es, called))"

definition notify ::
  "nat \<Rightarrow> (nat \<Rightarrow> ListenerAction list) \<Rightarrow> SetData \<Rightarrow> (SetData \<times> nat list) option" where
  "notify fuel beh es = forEach fuel beh es 0 []"

definition registered :: "SetData \<Rightarrow> nat set" where
  "registered es = {l. Some l \<in> set es}"

text \<open>The values of a \<open>Set\<close> in insertion order.\<close>

definition listenersOf :: "SetData \<Rightarrow> nat list" where
  "listenersOf es = concat (map (\<lambda>e. case e of None \<Rightarrow> [] | Some l \<Rightarrow> [l]) es)"

text \<open>
  The listeners that some listener of the list \<open>called\<close> subscribes, and those that some
  listener of the list unsubscribes.
\<close>

definition subscribedBy :: "(nat \<Rightarrow> ListenerAction list) \<Rightarrow> nat list \<Rightarrow> nat set" where
  "subscribedBy beh called = {l. \<exists>c \<in> set called. Subscribe l \<in> set (beh c)}"

definition unsubscribedBy :: "(nat \<Rightarrow> ListenerAction list) \<Rightarrow> nat list \<Rightarrow> nat set" where
  "unsubscribedBy beh called = {l. \<exists>c \<in> set called. Unsubscribe l \<in> set (beh c)}"

section \<open>The row virtualizer (core/virtual.ts)\<close>

text \<open>
  JavaScript numbers are modelled as reals for pixel quantities and as integers for
  counts and indices. The options object is passed as its fields: \<open>count\<close>, the values
  returned by \<open>getScrollOffset()\<close> and \<open>getContainerSize()\<close>, \<open>estimateSize\<close>, and the
  optional \<open>overscan\<close> (default 5). Division by an item size of 0 is outside the model.
\<close>

record VirtualItem =
  vi_index :: int
  vi_start :: real
  vi_size :: real
  vi_end :: real

record VirtualRange =
  startIndex :: int
  endIndex :: int
  items :: "VirtualItem list"
  totalSize :: real

definition calculateRange ::
  "int \<Rightarrow> real \<Rightarrow> real \<Rightarrow> (int \<Rightarrow> real) \<Rightarrow> int option \<Rightarrow> VirtualRange" where
  "calculateRange count scrollOffset containerSize estimateSize overscan_opt =
     (let overscan = (case overscan_opt of None \<Rightarrow> 5 | Some ov \<Rightarrow> ov)
      in if count = 0 then \<lparr> startIndex = 0, endIndex = 0, items = [], totalSize = 0 \<rparr>
         else
           (let itemSize = estimateSize 0;
                total = of_int count * itemSize;
                rawStart = max 0 \<lfloor>scrollOffset / itemSize\<rfloor>;
                rawEnd = min (count - 1) \<lceil>(scrollOffset + containerSize) / itemSize\<rceil>;
                renderStartIndex = max 0 (rawStart - overscan);
                renderEndIndex = min (count - 1) (rawEnd + overscan)
            in \<lparr> startIndex = renderStartIndex, endIndex = renderEndIndex,
                 items = map (\<lambda>i. \<lparr> vi_index = i, vi_start = of_int i * itemSize,
                                     vi_size = itemSize, vi_end = of_int (i + 1) * itemSize \<rparr>)
                           [renderStartIndex..renderEndIndex],
                 totalSize = total \<rparr>))"

section \<open>The column layout engine (core/virtual.ts)\<close>

datatype Pinned = PinnedLeft | PinnedRight | NotPinned

record VirtualColumn =
  vc_index :: nat
  vc_id :: ColumnId
  vc_start :: real
  vc_size :: real
  vc_end :: real
  vc_isPinned :: Pinned
  vc_stickyOffset :: real

text \<open>\<open>columnWidths[id] || 100\<close>: a missing or zero width counts as 100.\<close>

definition widthOf :: "(ColumnId \<Rightarrow> real option) \<Rightarrow> ColumnId \<Rightarrow> real" where
  "widthOf widths cid =
     (case widths cid of None \<Rightarrow> 100 | Some w \<Rightarrow> if w = 0 then 100 else w)"

text \<open>The visibility map of the options is optional; without it every column is visible.\<close>

definition visibleIn :: "(ColumnId \<Rightarrow> bool option) option \<Rightarrow> ColumnId \<Rightarrow> bool" where
  "visibleIn vis_opt cid = (case vis_opt of None \<Rightarrow> True | Some vis \<Rightarrow> isVisible vis cid)"

definition leftIdsOf :: "(ColumnId \<Rightarrow> bool option) option \<Rightarrow> PinnedColumns \<Rightarrow> ColumnId list" where
  "leftIdsOf vis_opt pinned = filter (visibleIn vis_opt) (left pinned)"

definition rightIdsOf :: "(ColumnId \<Rightarrow> bool option) option \<Rightarrow> PinnedColumns \<Rightarrow> ColumnId list" where
  "rightIdsOf vis_opt pinned = filter (visibleIn vis_opt) (right pinned)"

definition scrollableIdsOf ::
  "ColumnId list \<Rightarrow> (ColumnId \<Rightarrow> bool option) option \<Rightarrow> PinnedColumns \<Rightarrow> ColumnId list" where
  "scrollableIdsOf order vis_opt pinned =
     filter (\<lambda>cid. cid \<notin> set (left pinned) \<and> cid \<notin> set (right pinned) \<and> visibleIn vis_opt cid)
       order"

text \<open>
  The loop that fills \<open>rightStickyOffsets\<close> walks \<open>rightIds\<close> from its last element to
  its first; the function below is given the reversed list.
\<close>

fun rightStickyLoop ::
  "(ColumnId \<Rightarrow> real option) \<Rightarrow> ColumnId list \<Rightarrow> real \<Rightarrow> (ColumnId \<Rightarrow> real option)
     \<Rightarrow> (ColumnId \<Rightarrow> real option)" where
  "rightStickyLoop widths [] acc m = m"
| "rightStickyLoop widths (cid # cids) acc m =
     rightStickyLoop widths cids (acc + widthOf widths cid) (m(cid \<mapsto> acc))"

text \<open>
  The main loop over the visual order, with its three mutable variables as arguments:
  the visual index, \<open>currentOffset\<close> and \<open>leftStickyAccumulator\<close>. It returns the columns
  pushed and the final \<open>currentOffset\<close>.
\<close>

fun layoutLoop ::
  "(ColumnId \<Rightarrow> real option) \<Rightarrow> ColumnId list \<Rightarrow> ColumnId list \<Rightarrow> (ColumnId \<Rightarrow> real option)
     \<Rightarrow> real \<Rightarrow> real \<Rightarrow> ColumnId list \<Rightarrow> nat \<Rightarrow> real \<Rightarrow> real
     \<Rightarrow> VirtualColumn list \<times> real" where
  "layoutLoop widths leftIds rightIds rightSticky visibleStart visibleEnd [] index
     currentOffset leftAcc = ([], currentOffset)"
| "layoutLoop widths leftIds rightIds rightSticky visibleStart visibleEnd (cid # cids) index
     currentOffset leftAcc =
     (let width = widthOf widths cid;
          start = currentOffset;
          end = start + width;
          isPinnedLeft = (cid \<in> set leftIds);
          isPinnedRight = (cid \<in> set rightIds);
          shouldRender =
            (if isPinnedLeft then True
             else if isPinnedRight then True
             else (end \<ge> visibleStart \<and> start \<le> visibleEnd));
          stickyOffset =
            (if isPinnedLeft then leftAcc
             else if isPinnedRight
               then (case rightSticky cid of None \<Rightarrow> 0 | Some off \<Rightarrow> off)
             else 0);
          leftAcc' = (if isPinnedLeft then leftAcc + width else leftAcc);
          rest = layoutLoop widths leftIds rightIds rightSticky visibleStart visibleEnd cids
                   (index + 1) (currentOffset + width) leftAcc'
      in ((if shouldRender
           then [\<lparr> vc_index = index, vc_id = cid, vc_start = start, vc_size = width,
                    vc_end = end,
                    vc_isPinned = (if isPinnedLeft then PinnedLeft
                                   else if isPinnedRight then PinnedRight else NotPinned),
                    vc_stickyOffset = stickyOffset \<rparr>]
           else []) @ fst rest,
          snd rest))"

record Layout =
  virtualColumns :: "VirtualColumn list"
  totalWidth :: real

definition calculateLayout ::
  "ColumnId list \<Rightarrow> (ColumnId \<Rightarrow> real option) \<Rightarrow> (ColumnId \<Rightarrow> bool option) option
     \<Rightarrow> PinnedColumns \<Rightarrow> real \<Rightarrow> real \<Rightarrow> real option \<Rightarrow> Layout" where
  "calculateLayout order widths vis_opt pinned scrollLeft_px viewportWidth overscan_opt =
     (let overscan = (case overscan_opt of None \<Rightarrow> 200 | Some ov \<Rightarrow> ov);
          leftIds = leftIdsOf vis_opt pinned;
          rightIds = rightIdsOf vis_opt pinned;
          scrollableIds = scrollableIdsOf order vis_opt pinned;
          visualOrder = leftIds @ scrollableIds @ rightIds;
          rightSticky = rightStickyLoop widths (rev rightIds) 0 Map.empty;
          visibleStart = scrollLeft_px - overscan;
          visibleEnd = scrollLeft_px + viewportWidth + overscan;
          res = layoutLoop widths leftIds rightIds rightSticky visibleStart visibleEnd
                  visualOrder 0 0 0
      in \<lparr> virtualColumns = fst res, totalWidth = snd res \<rparr>)"

section \<open>Example data\<close>

text \<open>Three rows keyed by their \<open>id\<close> field, and the store after \<open>setData\<close> on them.\<close>

definition ex_getRowId :: "int Row \<Rightarrow> RowId" where
  "ex_getRowId row = (case getProp row ''id'' of Val n \<Rightarrow> NumId n | _ \<Rightarrow> StrId [])"

definition ex_rows :: "int Row list" where
  "ex_rows = [[''id'' \<mapsto> Val 1, ''age'' \<mapsto> Val 30],
              [''id'' \<mapsto> Val 2, ''age'' \<mapsto> Val 50],
              [''id'' \<mapsto> Val 3, ''age'' \<mapsto> Val 40]]"


definition ex_grid :: "int GridState" where
  "ex_grid = setData (<) ex_rows ex_getRowId GridStore_init"

text \<open>Rows of which one has no age (\<open>null\<close>), and the store holding them.\<close>

definition ex_null_rows :: "int Row list" where
  "ex_null_rows = [[''id'' \<mapsto> Val 1, ''age'' \<mapsto> Val 30],
                   [''id'' \<mapsto> Val 2, ''age'' \<mapsto> Null],
                   [''id'' \<mapsto> Val 3, ''age'' \<mapsto> Val 40]]"

definition ex_null_grid :: "int GridState" where
  "ex_null_grid = setData (<) ex_null_rows ex_getRowId GridStore_init"

text \<open>
  Listeners 0 and 1 are subscribed, in this order. When called, listener 0 unsubscribes
  listener 1 and subscribes a new listener 2; the others leave the registry alone.
\<close>

definition ex_listeners :: SetData where
  "ex_listeners = subscribe 1 (subscribe 0 [])"

definition ex_beh :: "nat \<Rightarrow> ListenerAction list" where
  "ex_beh l = (if l = 0 then [Unsubscribe 1, Subscribe 2] else [])"

text \<open>Listener 0 only unsubscribes listener 1; the others leave the registry alone.\<close>

definition ex_unsub :: "nat \<Rightarrow> ListenerAction list" where
  "ex_unsub l = (if l = 0 then [Unsubscribe 1] else [])"

text \<open>Listener 0 only subscribes a new listener 2; the others leave the registry alone.\<close>

definition ex_sub :: "nat \<Rightarrow> ListenerAction list" where
  "ex_sub l = (if l = 0 then [Subscribe 2] else [])"

text \<open>A listener that, when called, unsubscribes itself and subscribes itself again.\<close>

definition ex_resubscriber :: "nat \<Rightarrow> ListenerAction list" where
  "ex_resubscriber l = [Unsubscribe l, Subscribe l]"

text \<open>
  Nine columns in the order a, s, q, b, h, p, r, c, d, all of the default width 100, of
  which b and h are hidden; p, h, q are pinned left, in this order, and r, s are pinned
  right. The viewport is 100 wide at scroll position 0, with the default overscan.
\<close>

definition ex_layout :: Layout where
  "ex_layout =
     calculateLayout [''a'', ''s'', ''q'', ''b'', ''h'', ''p'', ''r'', ''c'', ''d''] Map.empty
       (Some [''b'' \<mapsto> False, ''h'' \<mapsto> False])
       \<lparr> left = [''p'', ''h'', ''q''], right = [''r'', ''s''] \<rparr> 0 100 None"

section \<open>Properties of the store\<close>

lemma ex_grid_rowOrder: "rowOrder ex_grid = [NumId 1, NumId 2, NumId 3]"
  by (simp add: ex_grid_def setData_def GridStore_init_def ex_rows_def ex_getRowId_def
      getProp_def)

lemma ex_grid_rowMap:
  "rowMap ex_grid = [NumId 1 \<mapsto> [''id'' \<mapsto> Val 1, ''age'' \<mapsto> Val 30],
                     NumId 2 \<mapsto> [''id'' \<mapsto> Val 2, ''age'' \<mapsto> Val 50],
                     NumId 3 \<mapsto> [''id'' \<mapsto> Val 3, ''age'' \<mapsto> Val 40]]"
  by (simp add: ex_grid_def setData_def GridStore_init_def ex_rows_def ex_getRowId_def
      getProp_def)

lemma ex_grid_editing: "editingCell ex_grid = None"
  by (simp add: ex_grid_def setData_def GridStore_init_def Let_def)

subsection \<open>commitEdit\<close>

text \<open>
  Claim C7. \<open>commitEdit\<close> leaves the snapshot as it is when no edit is active; when the
  edited row is absent from \<open>rowMap\<close> it clears \<open>editingCell\<close> and leaves \<open>rowMap\<close>
  unchanged; otherwise the new \<open>rowMap\<close> differs from the old one exactly at the edited
  row id, whose new row is the old row with the field at \<open>colId\<close> set to the edit value and
  every other field kept, and \<open>editingCell\<close> is cleared. No other part of the snapshot
  changes in any case.
\<close>

theorem commitEdit_cases:
  fixes prev :: "'v GridState"
  shows "(editingCell prev = None \<longrightarrow> commitEdit prev = prev)
    \<and> (\<forall>e. editingCell prev = Some e \<and> rowMap prev (rowId e) = None \<longrightarrow>
          commitEdit prev = prev\<lparr> editingCell := None \<rparr>
          \<and> rowMap (commitEdit prev) = rowMap prev)
    \<and> (\<forall>e row. editingCell prev = Some e \<and> rowMap prev (rowId e) = Some row \<longrightarrow>
          editingCell (commitEdit prev) = None
          \<and> (\<exists>newRow. rowMap (commitEdit prev) (rowId e) = Some newRow
                \<and> newRow (colId e) = Some (edit_value e)
                \<and> (\<forall>k. k \<noteq> colId e \<longrightarrow> newRow k = row k))
          \<and> (\<forall>r. r \<noteq> rowId e \<longrightarrow> rowMap (commitEdit prev) r = rowMap prev r)
          \<and> prev\<lparr> rowMap := rowMap (commitEdit prev), editingCell := None \<rparr> = commitEdit prev)"
  by (auto simp: commitEdit_def)

text \<open>
  The three cases at concrete snapshots: no edit; an edit of row 7, which does not exist;
  an edit of the age of row 2 from 50 to 5.
\<close>

theorem commitEdit_cases_witness:
  "(editingCell ex_grid = None \<and> commitEdit ex_grid = ex_grid)
   \<and> (let st = startEdit (NumId 7) ''age'' (Val 5) ex_grid
      in (\<exists>e. editingCell st = Some e \<and> rowMap st (rowId e) = None)
         \<and> commitEdit st = st\<lparr> editingCell := None \<rparr>
         \<and> rowMap (commitEdit st) = rowMap ex_grid)
   \<and> (let st = startEdit (NumId 2) ''age'' (Val 5) ex_grid
      in (\<exists>e row. editingCell st = Some e \<and> rowMap st (rowId e) = Some row)
         \<and> rowMap (commitEdit st) (NumId 2) = Some [''id'' \<mapsto> Val 2, ''age'' \<mapsto> Val 5]
         \<and> rowMap (commitEdit st) (NumId 1) = rowMap ex_grid (NumId 1)
         \<and> editingCell (commitEdit st) = None)"
proof -
  have c1: "editingCell ex_grid = None \<and> commitEdit ex_grid = ex_grid"
    using commitEdit_cases[of ex_grid] by (simp add: ex_grid_editing)
  define st2 where "st2 = startEdit (NumId 7) ''age'' (Val 5) ex_grid"
  have e2: "editingCell st2 = Some \<lparr> rowId = NumId 7, colId = ''age'', edit_value = Val 5,
         originalValue = Val 5, isSaving = False, error = None \<rparr>"
    by (simp add: st2_def startEdit_def)
  have r2: "rowMap st2 (NumId 7) = None" "rowMap st2 = rowMap ex_grid"
    by (simp_all add: st2_def startEdit_def ex_grid_rowMap)
  have c2: "(\<exists>e. editingCell st2 = Some e \<and> rowMap st2 (rowId e) = None)
         \<and> commitEdit st2 = st2\<lparr> editingCell := None \<rparr>
         \<and> rowMap (commitEdit st2) = rowMap ex_grid"
    using commitEdit_cases[of st2] e2 r2 by simp
  define st3 where "st3 = startEdit (NumId 2) ''age'' (Val 5) ex_grid"
  define e3 :: "int EditingState" where
    "e3 = \<lparr> rowId = NumId 2, colId = ''age'', edit_value = Val 5,
            originalValue = Val 5, isSaving = False, error = None \<rparr>"
  have ed3: "editingCell st3 = Some e3"
    by (simp add: st3_def e3_def startEdit_def)
  have r3: "rowMap st3 (rowId e3) = Some [''id'' \<mapsto> Val 2, ''age'' \<mapsto> Val 50]"
    by (simp add: st3_def e3_def startEdit_def ex_grid_rowMap)
  have r3': "rowMap st3 (NumId 1) = rowMap ex_grid (NumId 1)"
    by (simp add: st3_def startEdit_def)
  have c3: "(\<exists>e row. editingCell st3 = Some e \<and> rowMap st3 (rowId e) = Some row)
         \<and> rowMap (commitEdit st3) (NumId 2) = Some [''id'' \<mapsto> Val 2, ''age'' \<mapsto> Val 5]
         \<and> rowMap (commitEdit st3) (NumId 1) = rowMap ex_grid (NumId 1)
         \<and> editingCell (commitEdit st3) = None"
  proof -
    note h = commitEdit_cases[of st3, THEN conjunct2, THEN conjunct2, rule_format,
        OF conjI[OF ed3 r3]]
    from h obtain newRow where n: "rowMap (commitEdit st3) (NumId 2) = Some newRow"
      "newRow ''age'' = Some (Val 5)"
      "\<forall>k. k \<noteq> ''age'' \<longrightarrow> newRow k = [''id'' \<mapsto> Val 2, ''age'' \<mapsto> Val 50] k"
      by (auto simp: e3_def)
    have "newRow = [''id'' \<mapsto> Val 2, ''age'' \<mapsto> Val 5]"
      using n(2,3) by (auto simp: fun_eq_iff)
    with n(1) h ed3 r3 r3' show ?thesis by (auto simp: e3_def)
  qed
  show ?thesis
    unfolding Let_def using c1 c2[unfolded st2_def] c3[unfolded st3_def] by blast
qed

subsection \<open>Rollback of a failed edit\<close>

text \<open>
  When the handler throws a value that is neither \<open>null\<close> nor \<open>undefined\<close>, the whole
  failure sequence runs: the row's field at \<open>colId\<close> reads as it did before the edit and
  its other fields are as they were, and \<open>editingCell\<close> is set, for the same cell, with
  an error message that is not empty, \<open>isSaving\<close> false and \<open>value\<close> equal to the
  attempted value.
\<close>

lemma commit_failure_with_value:
  assumes "editingCell st = Some ec" and "rowMap st (rowId ec) = Some row"
  shows "\<exists>row' ec'. snd (commit (Some (Rejected (ThrownValue m))) st) = Returned
      \<and> rowMap (fst (commit (Some (Rejected (ThrownValue m))) st)) (rowId ec) = Some row'
      \<and> getProp row' (colId ec) = getProp row (colId ec)
      \<and> (\<forall>k. k \<noteq> colId ec \<longrightarrow> row' k = row k)
      \<and> editingCell (fst (commit (Some (Rejected (ThrownValue m))) st)) = Some ec'
      \<and> error ec' = Some (failureMessage m) \<and> failureMessage m \<noteq> []
      \<and> isSaving ec' = False
      \<and> edit_value ec' = edit_value ec
      \<and> rowId ec' = rowId ec \<and> colId ec' = colId ec"
  using assms
  by (auto simp: commit_def commitEdit_def updateRow_def startEdit_def setEditError_def
      getProp_def failureMessage_def Let_def map_add_def split: option.splits)

text \<open>
  Claim C1 says that after any failure of the handler \<open>editingCell\<close> has its error set.
  The age of row 2 is 50; the user opens the editor, types 77 and commits; the handler
  rejects with \<open>undefined\<close>. The catch block restores the age 50 and opens the editor
  with 77 again, then throws on \<open>e.message\<close> before \<open>setEditError\<close>: the error of
  \<open>editingCell\<close> is not set.
\<close>

theorem commit_nullish_rejection_no_error:
  "snd (commit (Some (Rejected ThrownNullish))
          (updateEditValue (Val 77) (startEdit (NumId 2) ''age'' (Val 50) ex_grid)))
     = ThrewTypeError
   \<and> rowMap (fst (commit (Some (Rejected ThrownNullish))
          (updateEditValue (Val 77) (startEdit (NumId 2) ''age'' (Val 50) ex_grid)))) (NumId 2)
     = Some [''id'' \<mapsto> Val 2, ''age'' \<mapsto> Val 50]
   \<and> editingCell (fst (commit (Some (Rejected ThrownNullish))
          (updateEditValue (Val 77) (startEdit (NumId 2) ''age'' (Val 50) ex_grid))))
     = Some \<lparr> rowId = NumId 2, colId = ''age'', edit_value = Val 77,
              originalValue = Val 77, isSaving = False, error = None \<rparr>"
proof -
  define st where "st = updateEditValue (Val 77) (startEdit (NumId 2) ''age'' (Val 50) ex_grid)"
  have e: "editingCell st = Some \<lparr> rowId = NumId 2, colId = ''age'', edit_value = Val 77,
            originalValue = Val 50, isSaving = False, error = None \<rparr>"
    by (simp add: st_def updateEditValue_def startEdit_def)
  have r: "rowMap st = rowMap ex_grid"
    by (simp add: st_def updateEditValue_def startEdit_def)
  have c: "snd (commit (Some (Rejected ThrownNullish)) st) = ThrewTypeError"
    by (simp add: commit_def e Let_def)
  have m: "rowMap (fst (commit (Some (Rejected ThrownNullish)) st)) (NumId 2)
             = Some [''id'' \<mapsto> Val 2, ''age'' \<mapsto> Val 50]"
    by (simp add: commit_def e r Let_def commitEdit_def updateRow_def startEdit_def
        ex_grid_rowMap getProp_def fun_eq_iff)
  have d: "editingCell (fst (commit (Some (Rejected ThrownNullish)) st))
             = Some \<lparr> rowId = NumId 2, colId = ''age'', edit_value = Val 77,
                      originalValue = Val 77, isSaving = False, error = None \<rparr>"
    by (simp add: commit_def e r Let_def commitEdit_def updateRow_def startEdit_def
        ex_grid_rowMap)
  from c m d show ?thesis unfolding st_def by simp
qed

subsection \<open>Removing the sort\<close>

text \<open>
  Claim C10. When \<open>toggleSort(columnId, false)\<close> finds the column sorted descending, the
  sort state becomes empty and \<open>rowOrder\<close> is left as it was immediately before the call:
  the last sorted order is kept, and the insertion order of \<open>setData\<close> is not restored.
\<close>

theorem toggleSort_unsort_keeps_rowOrder:
  assumes "find (\<lambda>s. columnId s = cid) (sort_list st) = Some es" and "direction es = Desc"
  shows "sort_list (toggleSort lt cid False st) = []
     \<and> rowOrder (toggleSort lt cid False st) = rowOrder st"
  using assms by (simp add: toggleSort_def sortRows_def Let_def)

text \<open>
  Rows with ages 30, 50, 40 are inserted in the order 1, 2, 3. Two toggles sort them by
  age descending: 2, 3, 1. The third toggle empties the sort state and the order stays
  2, 3, 1, which is not the insertion order.
\<close>

theorem toggleSort_unsort_keeps_rowOrder_witness:
  "let st = toggleSort (<) ''age'' False (toggleSort (<) ''age'' False ex_grid)
   in find (\<lambda>s. columnId s = ''age'') (sort_list st)
        = Some \<lparr> columnId = ''age'', direction = Desc \<rparr>
      \<and> rowOrder st = [NumId 2, NumId 3, NumId 1]
      \<and> sort_list (toggleSort (<) ''age'' False st) = []
      \<and> rowOrder (toggleSort (<) ''age'' False st) = [NumId 2, NumId 3, NumId 1]
      \<and> rowOrder ex_grid = [NumId 1, NumId 2, NumId 3]"
proof -
  define st where "st = toggleSort (<) ''age'' False (toggleSort (<) ''age'' False ex_grid)"
  have a: "sort_list st = [\<lparr> columnId = ''age'', direction = Desc \<rparr>]"
    by (simp add: st_def toggleSort_def Let_def ex_grid_def setData_def GridStore_init_def)
  have o1: "rowOrder st = [NumId 2, NumId 3, NumId 1]"
    by (simp add: st_def toggleSort_def Let_def ex_grid_def setData_def GridStore_init_def
        sortRows_def comparator_def ex_rows_def ex_getRowId_def getProp_def isNullish_def)
  have f: "find (\<lambda>s. columnId s = ''age'') (sort_list st)
             = Some \<lparr> columnId = ''age'', direction = Desc \<rparr>"
    by (simp add: a)
  have d: "direction \<lparr> columnId = ''age'', direction = Desc \<rparr> = Desc" by simp
  from toggleSort_unsort_keeps_rowOrder[OF f d, of "(<)"] f o1 ex_grid_rowOrder
  show ?thesis by (simp add: st_def Let_def)
qed

subsection \<open>Duplicate row ids\<close>







subsection \<open>Toggling the visibility of a column\<close>

text \<open>
  Claim C9 says that \<open>toggleColumnVisibility\<close> hides a column that is visible because it
  has no entry in \<open>columnVisibility\<close>. In the store of \<open>new GridStore()\<close> the column \<open>a\<close>
  has no entry and is visible; after the toggle its entry is \<open>true\<close> and it is visible
  still.
\<close>

theorem toggleColumnVisibility_absent_stays_visible:
  "columnVisibility (GridStore_init :: int GridState) ''a'' = None
   \<and> isVisible (columnVisibility (GridStore_init :: int GridState)) ''a''
   \<and> columnVisibility (toggleColumnVisibility ''a'' (GridStore_init :: int GridState)) ''a''
       = Some True
   \<and> isVisible (columnVisibility (toggleColumnVisibility ''a'' (GridStore_init :: int GridState)))
       ''a''"
  by (simp add: isVisible_def toggleColumnVisibility_def GridStore_init_def)

subsection \<open>Null values under a descending sort\<close>

text \<open>
  Claim C2 says that a null or undefined value sorts after any other value in either
  direction. The comparator multiplies its answer for a nullish value by the direction,
  so under a descending sort it returns a negative number for a row whose age is \<open>null\<close>
  against a row whose age is 30 (and a positive one for a row with an age against a row
  without the field): the nullish row goes first. Sorting the ages 30, \<open>null\<close>, 40
  ascending gives the order 1, 3, 2, and descending gives 2, 3, 1.
\<close>

theorem comparator_nulls_first_descending:
  "compareRows (<) [\<lparr> columnId = ''age'', direction = Desc \<rparr>]
      [''id'' \<mapsto> Val 2, ''age'' \<mapsto> Null] [''id'' \<mapsto> Val 1, ''age'' \<mapsto> Val (30::int)] = - 1
   \<and> compareRows (<) [\<lparr> columnId = ''age'', direction = Desc \<rparr>]
      [''id'' \<mapsto> Val 1, ''age'' \<mapsto> Val (30::int)] [''id'' \<mapsto> Val 4] = 1
   \<and> rowOrder (toggleSort (<) ''age'' False ex_null_grid) = [NumId 1, NumId 3, NumId 2]
   \<and> rowOrder (toggleSort (<) ''age'' False (toggleSort (<) ''age'' False ex_null_grid))
        = [NumId 2, NumId 3, NumId 1]"
proof -
  have g: "rowMap ex_null_grid = [NumId 1 \<mapsto> [''id'' \<mapsto> Val 1, ''age'' \<mapsto> Val 30],
      NumId 2 \<mapsto> [''id'' \<mapsto> Val 2, ''age'' \<mapsto> Null],
      NumId 3 \<mapsto> [''id'' \<mapsto> Val 3, ''age'' \<mapsto> Val 40]]"
     "rowOrder ex_null_grid = [NumId 1, NumId 2, NumId 3]"
     "sort_list ex_null_grid = []"
    by (simp_all add: ex_null_grid_def setData_def GridStore_init_def ex_null_rows_def
        ex_getRowId_def getProp_def)
  have a: "rowOrder (toggleSort (<) ''age'' False ex_null_grid) = [NumId 1, NumId 3, NumId 2]"
    by (simp add: toggleSort_def Let_def g sortRows_def comparator_def getProp_def
        isNullish_def)
  have b: "sort_list (toggleSort (<) ''age'' False ex_null_grid)
             = [\<lparr> columnId = ''age'', direction = Asc \<rparr>]"
     "rowMap (toggleSort (<) ''age'' False ex_null_grid) = rowMap ex_null_grid"
    by (simp_all add: toggleSort_def Let_def g)
  have c: "rowOrder (toggleSort (<) ''age'' False (toggleSort (<) ''age'' False ex_null_grid))
        = [NumId 2, NumId 3, NumId 1]"
    by (simp add: toggleSort_def[of _ _ _ "toggleSort (<) ''age'' False ex_null_grid"]
        Let_def a b g sortRows_def comparator_def getProp_def isNullish_def)
  show ?thesis using a c by (simp add: getProp_def isNullish_def)
qed

section \<open>Properties of the row virtualizer\<close>

text \<open>
  Claim C3 says that for a positive count the result has
  \<open>0 \<le> startIndex \<le> endIndex \<le> count - 1\<close> at every scroll offset. \<open>calculateRange\<close>
  bounds the raw start index only from below and the raw end index only from above.
  With 10 items of size 10, a container of 100 and an overscan of 5: at the scroll offset
  1000, beyond the total size 100, the start index is 95, the end index 9, and no item
  is emitted; at the scroll offset -1000 the end index is -85.
\<close>

theorem calculateRange_indices_not_clamped:
  "startIndex (calculateRange 10 1000 100 (\<lambda>i. 10) (Some 5)) = 95
   \<and> endIndex (calculateRange 10 1000 100 (\<lambda>i. 10) (Some 5)) = 9
   \<and> items (calculateRange 10 1000 100 (\<lambda>i. 10) (Some 5)) = []
   \<and> startIndex (calculateRange 10 (- 1000) 100 (\<lambda>i. 10) (Some 5)) = 0
   \<and> endIndex (calculateRange 10 (- 1000) 100 (\<lambda>i. 10) (Some 5)) = - 85"
  by (simp add: calculateRange_def Let_def)

lemma window_width:
  fixes s :: real
  shows "\<lceil>(s + 800) / 35\<rceil> \<le> \<lfloor>s / 35\<rfloor> + 24"
proof -
  have "s / 35 < of_int \<lfloor>s / 35\<rfloor> + 1" by linarith
  then have "s < 35 * of_int \<lfloor>s / 35\<rfloor> + 35" by (simp add: field_simps)
  then have "(s + 800) / 35 \<le> of_int (\<lfloor>s / 35\<rfloor> + 24)" by (simp add: field_simps)
  then show ?thesis by (simp only: ceiling_le_iff)
qed

lemma items_length:
  "length (items (calculateRange count s c est ov)) =
     (if count = 0 then 0 else nat (endIndex (calculateRange count s c est ov)
        - startIndex (calculateRange count s c est ov) + 1))"
  by (simp add: calculateRange_def Let_def)

text \<open>
  Claim C5. With a million rows of size 35, a container of 800, the default overscan
  and the scroll offset at its maximum \<open>totalSize - containerSize\<close>, the end index is
  \<open>count - 1\<close> and 28 items are emitted (from index 999972). For rows of size 35 in a
  container of 800 with the default overscan, at most 35 items are emitted whatever the
  count and the scroll offset are.
\<close>

theorem calculateRange_million_rows:
  "endIndex (calculateRange 1000000 (1000000 * 35 - 800) 800 (\<lambda>i. 35) None) = 1000000 - 1
   \<and> startIndex (calculateRange 1000000 (1000000 * 35 - 800) 800 (\<lambda>i. 35) None) = 999972
   \<and> length (items (calculateRange 1000000 (1000000 * 35 - 800) 800 (\<lambda>i. 35) None)) = 28
   \<and> length (items (calculateRange count scrollOffset 800 (\<lambda>i. 35) None)) \<le> 35"
proof -
  have e: "endIndex (calculateRange 1000000 (1000000 * 35 - 800) 800 (\<lambda>i. 35) None) = 999999"
    by (simp add: calculateRange_def Let_def)
  have s: "startIndex (calculateRange 1000000 (1000000 * 35 - 800) 800 (\<lambda>i. 35) None) = 999972"
    by (simp add: calculateRange_def Let_def)
  have l: "length (items (calculateRange 1000000 (1000000 * 35 - 800) 800 (\<lambda>i. 35) None)) = 28"
    using e s by (simp add: items_length)
  have g: "length (items (calculateRange count scrollOffset 800 (\<lambda>i. 35) None)) \<le> 35"
  proof -
    define a where "a = \<lfloor>scrollOffset / 35\<rfloor>"
    define b where "b = \<lceil>(scrollOffset + 800) / 35\<rceil>"
    have "b \<le> a + 24" unfolding a_def b_def by (rule window_width)
    then have "nat (min (count - 1) (min (count - 1) b + 5) - max 0 (max 0 a - 5) + 1) \<le> 35"
      by linarith
    then show ?thesis
      by (simp add: calculateRange_def Let_def a_def b_def)
  qed
  from e s l g show ?thesis by simp
qed

section \<open>Properties of the column layout\<close>

lemma layoutLoop_append:
  "\<exists>i' off' la'.
     fst (layoutLoop W ls rs st vs ve (xs @ ys) i off la) =
       fst (layoutLoop W ls rs st vs ve xs i off la)
       @ fst (layoutLoop W ls rs st vs ve ys i' off' la')"
proof (induction xs arbitrary: i off la)
  case Nil
  show ?case by auto
next
  case (Cons x xs)
  obtain i' off' la' where
    "fst (layoutLoop W ls rs st vs ve (xs @ ys) (i + 1) (off + widthOf W x)
            (if x \<in> set ls then la + widthOf W x else la)) =
     fst (layoutLoop W ls rs st vs ve xs (i + 1) (off + widthOf W x)
            (if x \<in> set ls then la + widthOf W x else la))
       @ fst (layoutLoop W ls rs st vs ve ys i' off' la')"
    using Cons.IH by blast
  then show ?case
    by (intro exI[of _ i'] exI[of _ off'] exI[of _ la']) (simp add: Let_def)
qed

lemma layoutLoop_pinned:
  "set xs \<subseteq> set ls \<union> set rs \<Longrightarrow>
     map vc_id (fst (layoutLoop W ls rs st vs ve xs i off la)) = xs"
  by (induction xs arbitrary: i off la) (auto simp: Let_def)

lemma layoutLoop_subseq:
  "subseq (map vc_id (fst (layoutLoop W ls rs st vs ve xs i off la))) xs"
  by (induction xs arbitrary: i off la) (auto simp: Let_def)

lemma layout_ids_decomposition:
  "(\<exists>mid. map vc_id (virtualColumns (calculateLayout order widths vis pinned sl vw ov))
            = leftIdsOf vis pinned @ mid @ rightIdsOf vis pinned
         \<and> subseq mid (scrollableIdsOf order vis pinned))
   \<and> take (length (leftIdsOf vis pinned))
         (map vc_id (virtualColumns (calculateLayout order widths vis pinned sl vw ov)))
       = leftIdsOf vis pinned
   \<and> drop (length (virtualColumns (calculateLayout order widths vis pinned sl vw ov))
           - length (rightIdsOf vis pinned))
         (map vc_id (virtualColumns (calculateLayout order widths vis pinned sl vw ov)))
       = rightIdsOf vis pinned"
proof -
  define ls where "ls = leftIdsOf vis pinned"
  define rs where "rs = rightIdsOf vis pinned"
  define sc where "sc = scrollableIdsOf order vis pinned"
  define st where "st = rightStickyLoop widths (rev rs) 0 Map.empty"
  define vs where "vs = sl - (case ov of None \<Rightarrow> 200 | Some x \<Rightarrow> x)"
  define ve where "ve = sl + vw + (case ov of None \<Rightarrow> 200 | Some x \<Rightarrow> x)"
  have cl: "virtualColumns (calculateLayout order widths vis pinned sl vw ov)
          = fst (layoutLoop widths ls rs st vs ve (ls @ sc @ rs) 0 0 0)"
    by (simp add: calculateLayout_def Let_def ls_def rs_def sc_def st_def vs_def ve_def)
  obtain i1 o1 l1 where a1:
    "fst (layoutLoop widths ls rs st vs ve (ls @ sc @ rs) 0 0 0) =
       fst (layoutLoop widths ls rs st vs ve ls 0 0 0)
       @ fst (layoutLoop widths ls rs st vs ve (sc @ rs) i1 o1 l1)"
    using layoutLoop_append[of widths ls rs st vs ve ls "sc @ rs" 0 0 0] by blast
  obtain i2 o2 l2 where a2:
    "fst (layoutLoop widths ls rs st vs ve (sc @ rs) i1 o1 l1) =
       fst (layoutLoop widths ls rs st vs ve sc i1 o1 l1)
       @ fst (layoutLoop widths ls rs st vs ve rs i2 o2 l2)"
    using layoutLoop_append[of widths ls rs st vs ve sc rs i1 o1 l1] by blast
  have p1: "map vc_id (fst (layoutLoop widths ls rs st vs ve ls 0 0 0)) = ls"
    by (rule layoutLoop_pinned) simp
  have p2: "map vc_id (fst (layoutLoop widths ls rs st vs ve rs i2 o2 l2)) = rs"
    by (rule layoutLoop_pinned) simp
  have p3: "subseq (map vc_id (fst (layoutLoop widths ls rs st vs ve sc i1 o1 l1))) sc"
    by (rule layoutLoop_subseq)
  define mid where "mid = map vc_id (fst (layoutLoop widths ls rs st vs ve sc i1 o1 l1))"
  define ids where
    "ids = map vc_id (virtualColumns (calculateLayout order widths vis pinned sl vw ov))"
  have ids: "ids = ls @ mid @ rs"
    by (simp add: ids_def cl a1 a2 p1 p2 mid_def)
  have len: "length (virtualColumns (calculateLayout order widths vis pinned sl vw ov))
               = length ids"
    by (simp add: ids_def)
  have t: "take (length ls) ids = ls" by (simp add: ids)
  have d: "drop (length ids - length rs) ids = rs" by (simp add: ids)
  have m: "subseq mid sc" using p3 by (simp add: mid_def)
  from ids m t d show ?thesis
    unfolding len ids_def[symmetric] ls_def[symmetric] rs_def[symmetric] sc_def[symmetric]
    by blast
qed

text \<open>
  Claim C6. A column is visible unless the visibility map is given and holds \<open>false\<close>
  for it. The ids of \<open>virtualColumns\<close>, in output order, are the visible ids of
  \<open>pinnedColumns.left\<close> in that list's order, then a subsequence of the visible ids of
  \<open>columnOrder\<close> that are in neither pin list (those that pass the intersection test),
  in the order of \<open>columnOrder\<close>, then the visible ids of \<open>pinnedColumns.right\<close> in that
  list's order. So the visible left-pinned columns are the first elements and the visible
  right-pinned columns the last, wherever they stand in \<open>columnOrder\<close>.
\<close>

theorem layout_visual_order:
  "(\<exists>mid. map vc_id (virtualColumns (calculateLayout order widths vis pinned sl vw ov))
            = filter (\<lambda>c. case vis of None \<Rightarrow> True | Some v \<Rightarrow> v c \<noteq> Some False) (left pinned)
              @ mid
              @ filter (\<lambda>c. case vis of None \<Rightarrow> True | Some v \<Rightarrow> v c \<noteq> Some False)
                  (right pinned)
         \<and> subseq mid
              (filter (\<lambda>c. c \<notin> set (left pinned) \<and> c \<notin> set (right pinned)
                            \<and> (case vis of None \<Rightarrow> True | Some v \<Rightarrow> v c \<noteq> Some False))
                 order))
   \<and> take (length (filter (\<lambda>c. case vis of None \<Rightarrow> True | Some v \<Rightarrow> v c \<noteq> Some False)
                      (left pinned)))
         (map vc_id (virtualColumns (calculateLayout order widths vis pinned sl vw ov)))
       = filter (\<lambda>c. case vis of None \<Rightarrow> True | Some v \<Rightarrow> v c \<noteq> Some False) (left pinned)
   \<and> drop (length (virtualColumns (calculateLayout order widths vis pinned sl vw ov))
           - length (filter (\<lambda>c. case vis of None \<Rightarrow> True | Some v \<Rightarrow> v c \<noteq> Some False)
                       (right pinned)))
         (map vc_id (virtualColumns (calculateLayout order widths vis pinned sl vw ov)))
       = filter (\<lambda>c. case vis of None \<Rightarrow> True | Some v \<Rightarrow> v c \<noteq> Some False) (right pinned)"
proof -
  have v: "visibleIn vis = (\<lambda>c. case vis of None \<Rightarrow> True | Some v \<Rightarrow> v c \<noteq> Some False)"
    by (auto simp: visibleIn_def isVisible_def fun_eq_iff split: option.splits)
  have l: "leftIdsOf vis pinned
             = filter (\<lambda>c. case vis of None \<Rightarrow> True | Some v \<Rightarrow> v c \<noteq> Some False) (left pinned)"
    by (simp only: leftIdsOf_def v)
  have r: "rightIdsOf vis pinned
             = filter (\<lambda>c. case vis of None \<Rightarrow> True | Some v \<Rightarrow> v c \<noteq> Some False) (right pinned)"
    by (simp only: rightIdsOf_def v)
  have s: "scrollableIdsOf order vis pinned
             = filter (\<lambda>c. c \<notin> set (left pinned) \<and> c \<notin> set (right pinned)
                            \<and> (case vis of None \<Rightarrow> True | Some v \<Rightarrow> v c \<noteq> Some False))
                 order"
    by (simp only: scrollableIdsOf_def v)
  from layout_ids_decomposition[of order widths vis pinned sl vw ov]
  show ?thesis unfolding l r s .
qed

lemma ex_layout_ids:
  "map vc_id (virtualColumns ex_layout) = [''p'', ''q'', ''a'', ''c'', ''r'', ''s'']"
  by (simp add: ex_layout_def calculateLayout_def Let_def leftIdsOf_def rightIdsOf_def
      scrollableIdsOf_def visibleIn_def isVisible_def widthOf_def)

text \<open>
  In the example layout the visible left pins p and q come first, in the order of the
  pin list and not of \<open>columnOrder\<close> (where q stands before p); the hidden left pin h
  and the hidden b are absent; the scrollable a and c follow, d being out of view; the
  right pins r and s come last, in the order of the pin list, although s stands second
  in \<open>columnOrder\<close>.
\<close>

theorem layout_visual_order_witness:
  "map vc_id (virtualColumns ex_layout) = [''p'', ''q'', ''a'', ''c'', ''r'', ''s'']
   \<and> take 2 (map vc_id (virtualColumns ex_layout)) = [''p'', ''q'']
   \<and> drop 4 (map vc_id (virtualColumns ex_layout)) = [''r'', ''s'']
   \<and> filter (\<lambda>c. case Some [''b'' \<mapsto> False, ''h'' \<mapsto> False] of
                    None \<Rightarrow> True | Some v \<Rightarrow> v c \<noteq> Some False) [''p'', ''h'', ''q'']
       = [''p'', ''q'']
   \<and> filter (\<lambda>c. case Some [''b'' \<mapsto> False, ''h'' \<mapsto> False] of
                    None \<Rightarrow> True | Some v \<Rightarrow> v c \<noteq> Some False) [''r'', ''s'']
       = [''r'', ''s'']"
  using layout_visual_order[of
      "[''a'', ''s'', ''q'', ''b'', ''h'', ''p'', ''r'', ''c'', ''d'']" Map.empty
      "Some [''b'' \<mapsto> False, ''h'' \<mapsto> False]"
      "\<lparr> left = [''p'', ''h'', ''q''], right = [''r'', ''s''] \<rparr>" 0 100 None]
  by (simp add: ex_layout_ids ex_layout_def[symmetric])

section \<open>Properties of the notification pass\<close>

lemma set_listenersOf: "set (listenersOf es) = registered es"
  by (induction es) (auto simp: listenersOf_def registered_def split: option.splits)

lemma Set_add_mem: "Some k \<in> set (Set_add l es) \<longleftrightarrow> Some k \<in> set es \<or> k = l"
  by (auto simp: Set_add_def)

lemma Set_add_take: "n \<le> length es \<Longrightarrow> take n (Set_add l es) = take n es"
  by (simp add: Set_add_def)

lemma Set_add_length: "length es \<le> length (Set_add l es)"
  by (simp add: Set_add_def)

lemma Set_delete_mem: "Some k \<in> set (Set_delete l es) \<longleftrightarrow> Some k \<in> set es \<and> k \<noteq> l"
  by (auto simp: Set_delete_def)

lemma Set_delete_take: "take n (Set_delete l es) = Set_delete l (take n es)"
  by (simp add: Set_delete_def take_map)

lemma Set_delete_length: "length (Set_delete l es) = length es"
  by (simp add: Set_delete_def)

lemma runAction_length: "length es \<le> length (runAction a es)"
  by (cases a) (simp_all add: subscribe_def unsubscribe_def Set_add_length Set_delete_length)

lemma runAction_take:
  "n \<le> length es \<Longrightarrow> Some k \<in> set (take n (runAction a es)) \<Longrightarrow> Some k \<in> set (take n es)"
  by (cases a)
    (simp_all add: subscribe_def unsubscribe_def Set_add_take Set_delete_take Set_delete_mem)

lemma runActions_keeps:
  "Some k \<in> set es \<Longrightarrow> Some k \<in> set (runActions as es) \<or> Unsubscribe k \<in> set as"
proof (induction as arbitrary: es)
  case Nil
  then show ?case by simp
next
  case (Cons a as)
  show ?case
  proof (cases "Some k \<in> set (runAction a es)")
    case True
    from Cons.IH[OF True] show ?thesis by auto
  next
    case False
    with Cons.prems have "a = Unsubscribe k"
      by (cases a) (auto simp: subscribe_def unsubscribe_def Set_add_mem Set_delete_mem)
    then show ?thesis by simp
  qed
qed

lemma runActions_adds:
  "Subscribe k \<in> set as \<Longrightarrow> Some k \<in> set (runActions as es) \<or> Unsubscribe k \<in> set as"
proof (induction as arbitrary: es)
  case Nil
  then show ?case by simp
next
  case (Cons a as)
  show ?case
  proof (cases "a = Subscribe k")
    case True
    then have "Some k \<in> set (runAction a es)"
      by (simp add: subscribe_def Set_add_mem)
    from runActions_keeps[OF this, of as] show ?thesis by auto
  next
    case False
    with Cons.prems have "Subscribe k \<in> set as" by simp
    from Cons.IH[OF this] show ?thesis by auto
  qed
qed

lemma runActions_take:
  "n \<le> length es \<Longrightarrow> Some k \<in> set (take n (runActions as es)) \<Longrightarrow> Some k \<in> set (take n es)"
proof (induction as arbitrary: es)
  case Nil
  then show ?case by simp
next
  case (Cons a as)
  have "n \<le> length (runAction a es)"
    using Cons.prems(1) runAction_length[of es a] by linarith
  from Cons.IH[OF this] Cons.prems(2) have "Some k \<in> set (take n (runAction a es))" by simp
  with Cons.prems(1) show ?case by (rule runAction_take)
qed

lemma runActions_origin:
  "Some k \<in> set (runActions as es) \<Longrightarrow> Some k \<in> set es \<or> Subscribe k \<in> set as"
proof (induction as arbitrary: es)
  case Nil
  then show ?case by simp
next
  case (Cons a as)
  from Cons.IH[of "runAction a es"] Cons.prems
  have "Some k \<in> set (runAction a es) \<or> Subscribe k \<in> set as" by simp
  then show ?case
    by (cases a) (auto simp: subscribe_def unsubscribe_def Set_add_mem Set_delete_mem)
qed

lemma forEach_inv:
  assumes "forEach fuel beh es i called = Some (es', called')"
    and "\<forall>k. Some k \<in> set (take i es) \<longrightarrow> k \<in> set called"
    and "\<forall>k \<in> R \<union> subscribedBy beh called. Some k \<in> set es \<or> k \<in> unsubscribedBy beh called"
    and "registered es \<union> set called \<subseteq> R \<union> subscribedBy beh called"
  shows "(\<forall>k \<in> R \<union> subscribedBy beh called'.
            k \<in> set called' \<or> k \<in> unsubscribedBy beh called')
       \<and> set called' \<subseteq> R \<union> subscribedBy beh called'"
  using assms
proof (induction fuel arbitrary: es i called)
  case 0
  then show ?case by simp
next
  case (Suc fuel)
  show ?case
  proof (cases "i < length es")
    case False
    with Suc.prems(1) have eq: "es' = es" "called' = called" by auto
    from False have "take i es = es" by simp
    with Suc.prems(2) have "\<forall>k. Some k \<in> set es \<longrightarrow> k \<in> set called" by simp
    with Suc.prems(3,4) show ?thesis unfolding eq by blast
  next
    case True
    note lt = True
    show ?thesis
    proof (cases "es ! i")
      case None
      with lt Suc.prems(1)
      have run: "forEach fuel beh es (i + 1) called = Some (es', called')" by simp
      have tk: "take (Suc i) es = take i es @ [None]"
        using lt None by (simp add: take_Suc_conv_app_nth)
      have I1: "\<forall>k. Some k \<in> set (take (i + 1) es) \<longrightarrow> k \<in> set called"
        using Suc.prems(2) by (simp add: tk)
      from Suc.IH[OF run I1 Suc.prems(3) Suc.prems(4)] show ?thesis .
    next
      case (Some c)
      define es2 where "es2 = runActions (beh c) es"
      from Some lt Suc.prems(1)
      have run: "forEach fuel beh es2 (i + 1) (called @ [c]) = Some (es', called')"
        by (simp add: es2_def)
      have cin: "Some c \<in> set es" using Some lt by (metis nth_mem)
      have sub: "subscribedBy beh (called @ [c])
                   = subscribedBy beh called \<union> {k. Subscribe k \<in> set (beh c)}"
        by (auto simp: subscribedBy_def)
      have uns: "unsubscribedBy beh (called @ [c])
                   = unsubscribedBy beh called \<union> {k. Unsubscribe k \<in> set (beh c)}"
        by (auto simp: unsubscribedBy_def)
      have I1: "\<forall>k. Some k \<in> set (take (i + 1) es2) \<longrightarrow> k \<in> set (called @ [c])"
      proof (intro allI impI)
        fix k assume "Some k \<in> set (take (i + 1) es2)"
        then have "Some k \<in> set (take (i + 1) es)"
          unfolding es2_def using lt by (intro runActions_take[of "i + 1" es k "beh c"]) simp_all
        then have "Some k \<in> set (take i es) \<or> k = c"
          using lt Some by (auto simp: take_Suc_conv_app_nth)
        with Suc.prems(2) show "k \<in> set (called @ [c])" by auto
      qed
      have J: "\<forall>k \<in> R \<union> subscribedBy beh (called @ [c]).
                 Some k \<in> set es2 \<or> k \<in> unsubscribedBy beh (called @ [c])"
      proof
        fix k assume "k \<in> R \<union> subscribedBy beh (called @ [c])"
        then consider "k \<in> R \<union> subscribedBy beh called" | "Subscribe k \<in> set (beh c)"
          unfolding sub by blast
        then show "Some k \<in> set es2 \<or> k \<in> unsubscribedBy beh (called @ [c])"
        proof cases
          case 1
          with Suc.prems(3) have "Some k \<in> set es \<or> k \<in> unsubscribedBy beh called" by blast
          then show ?thesis
            unfolding uns es2_def using runActions_keeps[of k es "beh c"] by blast
        next
          case 2
          then show ?thesis
            unfolding uns es2_def using runActions_adds[of k "beh c" es] by blast
        qed
      qed
      have K: "registered es2 \<union> set (called @ [c]) \<subseteq> R \<union> subscribedBy beh (called @ [c])"
      proof -
        have "registered es2 \<subseteq> registered es \<union> {k. Subscribe k \<in> set (beh c)}"
          unfolding es2_def registered_def using runActions_origin[of _ "beh c" es] by blast
        moreover have "c \<in> registered es" using cin by (simp add: registered_def)
        ultimately show ?thesis using Suc.prems(4) unfolding sub by auto
      qed
      from Suc.IH[OF run I1 J K] show ?thesis .
    qed
  qed
qed

lemma forEach_static:
  "\<forall>k. Some k \<in> set es \<longrightarrow> beh k = [] \<Longrightarrow> length es - i < fuel \<Longrightarrow>
     forEach fuel beh es i called = Some (es, called @ listenersOf (drop i es))"
proof (induction fuel arbitrary: i called)
  case 0
  then show ?case by simp
next
  case (Suc fuel)
  show ?case
  proof (cases "i < length es")
    case False
    then show ?thesis by (simp add: listenersOf_def)
  next
    case True
    then have d: "drop i es = es ! i # drop (Suc i) es" by (simp add: Cons_nth_drop_Suc)
    have f: "length es - (i + 1) < fuel" using Suc.prems(2) True by linarith
    show ?thesis
    proof (cases "es ! i")
      case None
      with True Suc.IH[OF Suc.prems(1) f, of called] show ?thesis
        by (simp add: d listenersOf_def)
    next
      case (Some c)
      then have "Some c \<in> set es" using True by (metis nth_mem)
      with Suc.prems(1) have "beh c = []" by simp
      with Some True Suc.IH[OF Suc.prems(1) f, of "called @ [c]"] show ?thesis
        by (simp add: d listenersOf_def)
    qed
  qed
qed

text \<open>
  The pass need not end: with the self-resubscribing listener registered alone, no amount
  of fuel is enough.
\<close>

lemma resubscribe_step:
  "runActions (ex_resubscriber 0) (replicate i None @ [Some 0]) = replicate (Suc i) None @ [Some 0]"
  by (simp add: ex_resubscriber_def subscribe_def unsubscribe_def Set_add_def Set_delete_def
      replicate_append_same)

lemma forEach_resubscriber:
  "forEach fuel ex_resubscriber (replicate i None @ [Some 0]) i called = None"
proof (induction fuel arbitrary: i called)
  case 0
  show ?case by simp
next
  case (Suc fuel)
  have "forEach fuel ex_resubscriber (replicate (Suc i) None @ [Some 0]) (Suc i) (called @ [0]) = None"
    by (rule Suc.IH)
  then show ?case
    by (simp add: nth_append resubscribe_step del: replicate_Suc)
qed

lemma notify_need_not_end: "notify fuel ex_resubscriber (subscribe 0 []) = None"
  using forEach_resubscriber[of fuel 0 "[]"]
  by (simp add: notify_def subscribe_def Set_add_def)

lemma ex_listeners_eval: "ex_listeners = [Some 0, Some 1]"
  by (simp add: ex_listeners_def subscribe_def Set_add_def)

lemma ex_notify: "notify 4 ex_beh ex_listeners = Some ([Some 0, None, Some 2], [0, 2])"
  by (simp add: notify_def ex_listeners_eval ex_beh_def subscribe_def unsubscribe_def
      Set_add_def Set_delete_def numeral_nat)

text \<open>
  Claim C4 says that the listeners called in a pass are exactly those registered when the
  pass begins. In the example the registry holds 0 and 1 when the pass begins; the pass
  calls 0 and then 2, which listener 0 subscribed during the pass, and does not call 1,
  which listener 0 unsubscribed before its turn.
\<close>

theorem notify_fixed_set_counterexample:
  "notify 4 ex_beh ex_listeners = Some ([Some 0, None, Some 2], [0, 2])
   \<and> registered ex_listeners = {0, 1}
   \<and> set [0, 2 :: nat] \<noteq> registered ex_listeners"
proof -
  have r: "registered ex_listeners = {0, 1}"
    by (auto simp: ex_listeners_eval registered_def)
  have "(1::nat) \<in> {0, 1}" "(1::nat) \<notin> set [0, 2]" by simp_all
  with r ex_notify show ?thesis by metis
qed

lemma listenersOf_append: "listenersOf (xs @ ys) = listenersOf xs @ listenersOf ys"
  by (simp add: listenersOf_def)

lemma listenersOf_delete:
  "listenersOf (Set_delete l es) = filter (\<lambda>k. k \<noteq> l) (listenersOf es)"
  by (induction es) (auto simp: listenersOf_def Set_delete_def split: option.splits)

lemma runAction_take_subseq:
  "n \<le> length es \<Longrightarrow> subseq (listenersOf (take n (runAction a es))) (listenersOf (take n es))"
  by (cases a)
    (simp_all add: subscribe_def unsubscribe_def Set_add_take Set_delete_take listenersOf_delete)

lemma runActions_take_subseq:
  "n \<le> length es \<Longrightarrow> subseq (listenersOf (take n (runActions as es))) (listenersOf (take n es))"
proof (induction as arbitrary: es)
  case Nil
  then show ?case by simp
next
  case (Cons a as)
  have "n \<le> length (runAction a es)"
    using Cons.prems runAction_length[of es a] by linarith
  from Cons.IH[OF this] runAction_take_subseq[OF Cons.prems, of a] show ?case
    using subseq_order.trans by fastforce
qed

lemma forEach_subseq:
  "forEach fuel beh es i called = Some (es', called') \<Longrightarrow>
   subseq (listenersOf (take i es)) called \<Longrightarrow> subseq (listenersOf es') called'"
proof (induction fuel arbitrary: es i called)
  case 0
  then show ?case by simp
next
  case (Suc fuel)
  show ?case
  proof (cases "i < length es")
    case False
    with Suc.prems show ?thesis by auto
  next
    case True
    show ?thesis
    proof (cases "es ! i")
      case None
      with True Suc.prems(1)
      have run: "forEach fuel beh es (i + 1) called = Some (es', called')" by simp
      have "listenersOf (take (i + 1) es) = listenersOf (take i es)"
        using True None by (simp add: take_Suc_conv_app_nth listenersOf_append listenersOf_def)
      with Suc.prems(2) have "subseq (listenersOf (take (i + 1) es)) called" by simp
      from Suc.IH[OF run this] show ?thesis .
    next
      case (Some c)
      with True Suc.prems(1)
      have run: "forEach fuel beh (runActions (beh c) es) (i + 1) (called @ [c])
                   = Some (es', called')" by simp
      have "listenersOf (take (i + 1) es) = listenersOf (take i es) @ [c]"
        using True Some by (simp add: take_Suc_conv_app_nth listenersOf_append listenersOf_def)
      with Suc.prems(2) have "subseq (listenersOf (take (i + 1) es)) (called @ [c])"
        by (simp add: list_emb_append_mono)
      moreover have "subseq (listenersOf (take (i + 1) (runActions (beh c) es)))
                        (listenersOf (take (i + 1) es))"
        using True by (intro runActions_take_subseq) simp
      ultimately have "subseq (listenersOf (take (i + 1) (runActions (beh c) es))) (called @ [c])"
        using subseq_order.trans by blast
      from Suc.IH[OF run this] show ?thesis .
    qed
  qed
qed

lemma forEach_new_origin:
  "forEach fuel beh es i called = Some (es', called') \<Longrightarrow>
   \<exists>new. called' = called @ new \<and> set new \<subseteq> registered es \<union> subscribedBy beh new"
proof (induction fuel arbitrary: es i called)
  case 0
  then show ?case by simp
next
  case (Suc fuel)
  show ?case
  proof (cases "i < length es")
    case False
    with Suc.prems show ?thesis by auto
  next
    case True
    show ?thesis
    proof (cases "es ! i")
      case None
      with True Suc.prems
      have "forEach fuel beh es (i + 1) called = Some (es', called')" by simp
      from Suc.IH[OF this] show ?thesis .
    next
      case (Some c)
      with True Suc.prems
      have "forEach fuel beh (runActions (beh c) es) (i + 1) (called @ [c])
              = Some (es', called')" by simp
      from Suc.IH[OF this] obtain new where n: "called' = (called @ [c]) @ new"
        "set new \<subseteq> registered (runActions (beh c) es) \<union> subscribedBy beh new" by blast
      have cin: "c \<in> registered es"
        using True Some by (metis (mono_tags, lifting) mem_Collect_eq nth_mem registered_def)
      have "registered (runActions (beh c) es) \<subseteq> registered es \<union> {k. Subscribe k \<in> set (beh c)}"
        unfolding registered_def using runActions_origin[of _ "beh c" es] by blast
      moreover have "subscribedBy beh (c # new)
                       = {k. Subscribe k \<in> set (beh c)} \<union> subscribedBy beh new"
        by (auto simp: subscribedBy_def)
      ultimately have "set (c # new) \<subseteq> registered es \<union> subscribedBy beh (c # new)"
        using n(2) cin by auto
      with n(1) show ?thesis by (intro exI[of _ "c # new"]) simp
    qed
  qed
qed

lemma runActions_removes:
  "Unsubscribe k \<in> set as \<Longrightarrow> \<forall>a \<in> set as. a \<noteq> Subscribe k \<Longrightarrow>
     Some k \<notin> set (runActions as es)"
proof (induction as arbitrary: es)
  case Nil
  then show ?case by simp
next
  case (Cons a as)
  show ?case
  proof (cases "a = Unsubscribe k")
    case True
    then have "Some k \<notin> set (runAction a es)"
      by (simp add: unsubscribe_def Set_delete_mem)
    with runActions_origin[of k as "runAction a es"] Cons.prems(2) show ?thesis by auto
  next
    case False
    with Cons.prems have "Unsubscribe k \<in> set as" "\<forall>a \<in> set as. a \<noteq> Subscribe k" by auto
    from Cons.IH[OF this] show ?thesis by simp
  qed
qed

lemma forEach_decomposition:
  "forEach fuel beh es i called = Some (es', called @ pre @ c # post) \<Longrightarrow>
   \<exists>fuel' es1 i1. forEach fuel' beh (runActions (beh c) es1) i1 (called @ pre @ [c])
                     = Some (es', called @ pre @ c # post)"
proof (induction fuel arbitrary: es i called pre)
  case 0
  then show ?case by simp
next
  case (Suc fuel)
  show ?case
  proof (cases "i < length es")
    case False
    with Suc.prems show ?thesis by auto
  next
    case True
    show ?thesis
    proof (cases "es ! i")
      case None
      with True Suc.prems
      have "forEach fuel beh es (i + 1) called = Some (es', called @ pre @ c # post)" by simp
      from Suc.IH[OF this] show ?thesis .
    next
      case (Some l)
      with True Suc.prems
      have run: "forEach fuel beh (runActions (beh l) es) (i + 1) (called @ [l])
                   = Some (es', called @ pre @ c # post)" by simp
      from forEach_new_origin[OF run] obtain new
        where "called @ pre @ c # post = (called @ [l]) @ new" by blast
      then have eq: "pre @ c # post = l # new" by simp
      show ?thesis
      proof (cases pre)
        case Nil
        with eq have "c = l" by simp
        with run Nil show ?thesis by auto
      next
        case (Cons p pre')
        with eq have "p = l" by simp
        with run Cons
        have "forEach fuel beh (runActions (beh l) es) (i + 1) (called @ [l])
                = Some (es', (called @ [l]) @ pre' @ c # post)" by simp
        from Suc.IH[OF this] Cons \<open>p = l\<close> show ?thesis by simp
      qed
    qed
  qed
qed

lemma notify_unsubscribed_not_called:
  assumes "notify fuel beh es = Some (es', pre @ c # post)"
    and "Unsubscribe l \<in> set (beh c)"
    and "l \<notin> subscribedBy beh (c # post)"
  shows "l \<notin> set post"
proof
  assume lp: "l \<in> set post"
  from assms(1) have "forEach fuel beh es 0 [] = Some (es', [] @ pre @ c # post)"
    by (simp add: notify_def)
  from forEach_decomposition[OF this] obtain fuel' es1 i1 where
    run: "forEach fuel' beh (runActions (beh c) es1) i1 (pre @ [c]) = Some (es', pre @ c # post)"
    by auto
  from forEach_new_origin[OF run] obtain new where
    "pre @ c # post = (pre @ [c]) @ new"
    "set new \<subseteq> registered (runActions (beh c) es1) \<union> subscribedBy beh new" by blast
  then have sub: "set post \<subseteq> registered (runActions (beh c) es1) \<union> subscribedBy beh post"
    by simp
  from assms(3) have ns: "\<forall>a \<in> set (beh c). a \<noteq> Subscribe l" "l \<notin> subscribedBy beh post"
    by (auto simp: subscribedBy_def)
  from runActions_removes[OF assms(2) ns(1)] have "l \<notin> registered (runActions (beh c) es1)"
    by (simp add: registered_def)
  with sub ns(2) lp show False by blast
qed

lemma runActions_length_unsub:
  "\<forall>k. Subscribe k \<notin> set as \<Longrightarrow> length (runActions as es) = length es"
proof (induction as arbitrary: es)
  case Nil
  then show ?case by simp
next
  case (Cons a as)
  then show ?case
    by (cases a) (auto simp: unsubscribe_def Set_delete_length)
qed

lemma forEach_ends_unsub:
  "\<forall>l k. Subscribe k \<notin> set (beh l) \<Longrightarrow> length es - i < fuel \<Longrightarrow>
     forEach fuel beh es i called \<noteq> None"
proof (induction fuel arbitrary: es i called)
  case 0
  then show ?case by simp
next
  case (Suc fuel)
  show ?case
  proof (cases "i < length es")
    case False
    then show ?thesis by simp
  next
    case True
    show ?thesis
    proof (cases "es ! i")
      case None
      have "length es - (i + 1) < fuel" using Suc.prems(2) True by linarith
      from Suc.IH[OF Suc.prems(1) this, of called] None True show ?thesis by simp
    next
      case (Some c)
      have "length (runActions (beh c) es) = length es"
        using Suc.prems(1) by (intro runActions_length_unsub) simp
      then have "length (runActions (beh c) es) - (i + 1) < fuel"
        using Suc.prems(2) True by linarith
      from Suc.IH[OF Suc.prems(1) this, of "called @ [c]"] Some True show ?thesis by simp
    qed
  qed
qed

lemma runActions_extends:
  "\<forall>k. Unsubscribe k \<notin> set as \<Longrightarrow> prefix es (runActions as es)"
proof (induction as arbitrary: es)
  case Nil
  then show ?case by simp
next
  case (Cons a as)
  then have "prefix (runAction a es) (runActions as (runAction a es))" by simp
  moreover have "prefix es (runAction a es)"
    using Cons.prems by (cases a) (auto simp: subscribe_def Set_add_def)
  ultimately show ?case using prefix_order.trans by fastforce
qed

lemma forEach_exact:
  "forEach fuel beh es i called = Some (es', called') \<Longrightarrow>
   \<forall>c \<in> set called'. \<forall>k. Unsubscribe k \<notin> set (beh c) \<Longrightarrow>
   \<exists>new. called' = called @ new \<and> listenersOf es' = listenersOf (take i es) @ new
          \<and> prefix es es'"
proof (induction fuel arbitrary: es i called)
  case 0
  then show ?case by simp
next
  case (Suc fuel)
  show ?case
  proof (cases "i < length es")
    case False
    with Suc.prems show ?thesis by auto
  next
    case True
    show ?thesis
    proof (cases "es ! i")
      case None
      with True Suc.prems
      have run: "forEach fuel beh es (i + 1) called = Some (es', called')" by simp
      have "listenersOf (take (i + 1) es) = listenersOf (take i es)"
        using True None by (simp add: take_Suc_conv_app_nth listenersOf_append listenersOf_def)
      with Suc.IH[OF run Suc.prems(2)] show ?thesis by simp
    next
      case (Some c)
      define es2 where "es2 = runActions (beh c) es"
      from Some True Suc.prems
      have run: "forEach fuel beh es2 (i + 1) (called @ [c]) = Some (es', called')"
        by (simp add: es2_def)
      from Suc.IH[OF run Suc.prems(2)] obtain new where n: "called' = (called @ [c]) @ new"
        "listenersOf es' = listenersOf (take (i + 1) es2) @ new" "prefix es2 es'" by blast
      from n(1) have "c \<in> set called'" by simp
      with Suc.prems(2) have nu: "\<forall>k. Unsubscribe k \<notin> set (beh c)" by blast
      from runActions_extends[OF nu, of es] have p: "prefix es es2" by (simp add: es2_def)
      then obtain zs where "es2 = es @ zs" by (auto simp: prefix_def)
      with True have "take (i + 1) es2 = take (i + 1) es" by simp
      also have "listenersOf (take (i + 1) es) = listenersOf (take i es) @ [c]"
        using True Some by (simp add: take_Suc_conv_app_nth listenersOf_append listenersOf_def)
      finally have "listenersOf (take (i + 1) es2) = listenersOf (take i es) @ [c]" .
      with n p show ?thesis
        using prefix_order.trans by (intro exI[of _ "c # new"]) fastforce
    qed
  qed
qed

lemma prefix_listenersOf: "prefix es es' \<Longrightarrow> prefix (listenersOf es) (listenersOf es')"
  by (auto simp: prefix_def listenersOf_append)

lemma ex_notify_unsub: "notify 3 ex_unsub ex_listeners = Some ([Some 0, None], [0])"
  by (simp add: notify_def ex_listeners_eval ex_unsub_def unsubscribe_def Set_delete_def
      numeral_nat)

lemma ex_notify_sub:
  "notify 4 ex_sub ex_listeners = Some ([Some 0, Some 1, Some 2], [0, 1, 2])"
  by (simp add: notify_def ex_listeners_eval ex_sub_def subscribe_def Set_add_def numeral_nat)

text \<open>
  Claim C4, amended. The pass walks the live registry in insertion order.

  If no registered listener changes the registry when called, the pass ends and calls
  exactly the listeners registered when it begins, in insertion order. If listeners only
  unsubscribe, the pass ends.

  Whenever the pass ends: the listeners still registered at its end have all been called,
  in insertion order; every listener called was registered when the pass began or was
  subscribed during the pass by a listener called in it; every listener that was
  registered when the pass began or was subscribed during the pass is called, unless a
  listener called in the pass unsubscribes it; a listener that a called listener
  unsubscribes, and that neither this listener nor any listener called after it
  subscribes, is not called after it; and if no listener called unsubscribes anyone, the
  listeners called are exactly the registry at the end of the pass in insertion order,
  which begins with the listeners registered when the pass began.
\<close>

theorem notify_live_registry:
  "((\<forall>l \<in> registered es. beh l = []) \<longrightarrow>
       notify (Suc (length es)) beh es = Some (es, listenersOf es)
       \<and> set (listenersOf es) = registered es)
   \<and> ((\<forall>l k. Subscribe k \<notin> set (beh l)) \<longrightarrow> notify (Suc (length es)) beh es \<noteq> None)
   \<and> (notify fuel beh es = Some (es', called) \<longrightarrow>
       subseq (listenersOf es') called
       \<and> set called \<subseteq> registered es \<union> subscribedBy beh called
       \<and> registered es \<union> subscribedBy beh called \<subseteq> set called \<union> unsubscribedBy beh called
       \<and> (\<forall>pre c post l. called = pre @ c # post \<and> Unsubscribe l \<in> set (beh c)
             \<and> l \<notin> subscribedBy beh (c # post) \<longrightarrow> l \<notin> set post)
       \<and> (unsubscribedBy beh called = {} \<longrightarrow>
             called = listenersOf es' \<and> prefix (listenersOf es) called))"
proof (intro conjI impI allI)
  assume a: "\<forall>l \<in> registered es. beh l = []"
  then have "\<forall>k. Some k \<in> set es \<longrightarrow> beh k = []" by (simp add: registered_def)
  from forEach_static[OF this, of 0 "Suc (length es)" "[]"]
  show "notify (Suc (length es)) beh es = Some (es, listenersOf es)"
    by (simp add: notify_def)
next
  show "set (listenersOf es) = registered es" by (rule set_listenersOf)
next
  assume "\<forall>l k. Subscribe k \<notin> set (beh l)"
  from forEach_ends_unsub[OF this, of es 0 "Suc (length es)" "[]"]
  show "notify (Suc (length es)) beh es \<noteq> None" by (simp add: notify_def)
next
  assume n: "notify fuel beh es = Some (es', called)"
  then have run: "forEach fuel beh es 0 [] = Some (es', called)" by (simp add: notify_def)
  from forEach_subseq[OF run] show "subseq (listenersOf es') called"
    by (simp add: listenersOf_def)
  have "(\<forall>k \<in> registered es \<union> subscribedBy beh called.
            k \<in> set called \<or> k \<in> unsubscribedBy beh called)
       \<and> set called \<subseteq> registered es \<union> subscribedBy beh called"
    by (rule forEach_inv[OF run]) (auto simp: subscribedBy_def registered_def)
  then show "set called \<subseteq> registered es \<union> subscribedBy beh called"
    and "registered es \<union> subscribedBy beh called \<subseteq> set called \<union> unsubscribedBy beh called"
    by blast+
  {
    fix pre c post l
    assume h: "called = pre @ c # post \<and> Unsubscribe l \<in> set (beh c)
                 \<and> l \<notin> subscribedBy beh (c # post)"
    with n have "notify fuel beh es = Some (es', pre @ c # post)" by simp
    from notify_unsubscribed_not_called[OF this] h show "l \<notin> set post" by blast
  }
  {
    assume "unsubscribedBy beh called = {}"
    then have "\<forall>c \<in> set called. \<forall>k. Unsubscribe k \<notin> set (beh c)"
      by (auto simp: unsubscribedBy_def)
    from forEach_exact[OF run this] obtain new where
      e: "called = [] @ new" "listenersOf es' = listenersOf (take 0 es) @ new" "prefix es es'"
      by blast
    then show "called = listenersOf es'" by (simp add: listenersOf_def)
    with e(3) show "prefix (listenersOf es) called" by (simp add: prefix_listenersOf)
  }
qed

text \<open>
  Listeners 0 and 1 are registered. With listeners that leave the registry alone the pass
  calls 0, 1. When listener 0 unsubscribes 1, the pass calls 0 alone. When listener 0
  unsubscribes 1 and subscribes 2, the pass calls 0, 2. When listener 0 subscribes 2, the
  pass calls 0, 1, 2.
\<close>

theorem notify_live_registry_witness:
  "registered ex_listeners = {0, 1}
   \<and> notify 3 (\<lambda>l. []) ex_listeners = Some (ex_listeners, [0, 1])
   \<and> notify 3 ex_unsub ex_listeners = Some ([Some 0, None], [0])
   \<and> notify 4 ex_beh ex_listeners = Some ([Some 0, None, Some 2], [0, 2])
   \<and> subseq (listenersOf [Some 0, None, Some 2]) [0, 2]
   \<and> set [0, 2] \<subseteq> registered ex_listeners \<union> subscribedBy ex_beh [0, 2]
   \<and> registered ex_listeners \<union> subscribedBy ex_beh [0, 2]
        \<subseteq> set [0, 2] \<union> unsubscribedBy ex_beh [0, 2]
   \<and> Unsubscribe 1 \<in> set (ex_beh 0) \<and> 1 \<notin> subscribedBy ex_beh [0, 2] \<and> 1 \<notin> set [2 :: nat]
   \<and> notify 4 ex_sub ex_listeners = Some ([Some 0, Some 1, Some 2], [0, 1, 2])
   \<and> unsubscribedBy ex_sub [0, 1, 2] = {}
   \<and> [0, 1, 2] = listenersOf [Some 0, Some 1, Some 2]
   \<and> prefix (listenersOf ex_listeners) [0, 1, 2]"
proof -
  have r: "registered ex_listeners = {0, 1}"
    by (auto simp: ex_listeners_eval registered_def)
  have s: "notify 3 (\<lambda>l. []) ex_listeners = Some (ex_listeners, [0, 1])"
    using notify_live_registry[of ex_listeners "\<lambda>l. []" 0 "[]" "[]", THEN conjunct1]
    by (simp add: ex_listeners_eval listenersOf_def numeral_3_eq_3)
  have u0: "\<forall>l k. Subscribe k \<notin> set (ex_unsub l)" by (simp add: ex_unsub_def)
  have u: "notify 3 ex_unsub ex_listeners \<noteq> None"
    using notify_live_registry[of ex_listeners ex_unsub 0 "[]" "[]", THEN conjunct2,
        THEN conjunct1, THEN mp, OF u0]
    by (simp add: ex_listeners_eval numeral_3_eq_3)
  note g = notify_live_registry[of ex_listeners ex_beh 4 "[Some 0, None, Some 2]" "[0, 2]",
      THEN conjunct2, THEN conjunct2, THEN mp, OF ex_notify]
  have h: "Unsubscribe 1 \<in> set (ex_beh 0)" "1 \<notin> subscribedBy ex_beh [0, 2]"
    by (auto simp: ex_beh_def subscribedBy_def)
  from g have "\<forall>pre c post l. [0, 2] = pre @ c # post \<and> Unsubscribe l \<in> set (ex_beh c)
             \<and> l \<notin> subscribedBy ex_beh (c # post) \<longrightarrow> l \<notin> set post"
    by blast
  then have "[0, 2] = [] @ 0 # [2] \<and> Unsubscribe 1 \<in> set (ex_beh 0)
             \<and> 1 \<notin> subscribedBy ex_beh (0 # [2]) \<longrightarrow> 1 \<notin> set [2 :: nat]"
    by blast
  with h have g4: "1 \<notin> set [2 :: nat]" by simp
  note x = notify_live_registry[of ex_listeners ex_sub 4 "[Some 0, Some 1, Some 2]" "[0, 1, 2]",
      THEN conjunct2, THEN conjunct2, THEN mp, OF ex_notify_sub]
  have e: "unsubscribedBy ex_sub [0, 1, 2] = {}"
    by (auto simp: unsubscribedBy_def ex_sub_def)
  have x5: "[0, 1, 2] = listenersOf [Some 0, Some 1, Some 2]
            \<and> prefix (listenersOf ex_listeners) [0, 1, 2]"
    by (rule x[THEN conjunct2, THEN conjunct2, THEN conjunct2, THEN conjunct2, THEN mp, OF e])
  from r s u ex_notify_unsub ex_notify g g4 h ex_notify_sub e x5
  show ?thesis by blast
qed

end
